theory Spec2Isabelle
  imports Main "HOL-Library.AList"
begin

section \<open>Virtual Pull-Up: the fact cache and the provider rotation\<close>

text \<open>
  Source: \<^verbatim>\<open>Resources/Empire/01_VirtualPullUp/app.py\<close>, classes \<^verbatim>\<open>Mem0Cache\<close> and
  \<^verbatim>\<open>AIProviderRotation\<close>.

  Conventions of the embedding.
  \<^item> A Python \<^verbatim>\<open>dict\<close> whose iteration order or length is read (\<^verbatim>\<open>cache\<close>,
    \<^verbatim>\<open>access_times\<close>) is an association list in insertion order: assigning to an
    existing key keeps its position, a new key goes to the end, \<^verbatim>\<open>del\<close> removes the
    entry. A \<^verbatim>\<open>dict\<close> that is only indexed (\<^verbatim>\<open>request_counts\<close>, \<^verbatim>\<open>rate_limits\<close>) is a map.
  \<^item> \<^verbatim>\<open>datetime.now()\<close> is an input: every call that reads the clock takes the value
    read as an argument, in microseconds (the resolution of \<^verbatim>\<open>datetime\<close>).
  \<^item> An exception is the \<open>Inl\<close> branch of the result.
  \<^item> A \<open>char\<close> stands for a code point below 256.
\<close>

type_synonym time = int

datatype error = KeyError string | IndexError

subsection \<open>Key normalisation\<close>

text \<open>\<^verbatim>\<open>str.lower\<close> on code points below 256: A-Z and the capital letters
  U+00C0..U+00DE (without the multiplication sign U+00D7) move up by 32.\<close>

definition lower_char :: "char \<Rightarrow> char" where
  "lower_char c =
     (let n = of_char c :: nat in
      if (65 \<le> n \<and> n \<le> 90) \<or> (192 \<le> n \<and> n \<le> 222 \<and> n \<noteq> 215)
      then char_of (n + 32) else c)"

definition lower :: "string \<Rightarrow> string" where
  "lower s = map lower_char s"

text \<open>\<^verbatim>\<open>str.isspace\<close> on code points below 256.\<close>

definition isspace :: "char \<Rightarrow> bool" where
  "isspace c =
     (let n = of_char c :: nat in
      (9 \<le> n \<and> n \<le> 13) \<or> (28 \<le> n \<and> n \<le> 32) \<or> n = 133 \<or> n = 160)"

definition strip :: "string \<Rightarrow> string" where
  "strip s = rev (dropWhile isspace (rev (dropWhile isspace s)))"

text \<open>\<^verbatim>\<open>Mem0Cache._generate_key\<close>. The parameter \<open>md5\<close> stands for
  \<^verbatim>\<open>lambda t: hashlib.md5(t.encode()).hexdigest()\<close>, a function of the standard library.\<close>

definition generate_key :: "(string \<Rightarrow> string) \<Rightarrow> string \<Rightarrow> string" where
  "generate_key md5 claim = (let normalized = strip (lower claim) in md5 normalized)"

subsection \<open>Mem0Cache\<close>

record 'v Mem0Cache =
  cache :: "(string \<times> 'v) list"
  max_size :: int
  access_times :: "(string \<times> time) list"

text \<open>\<^verbatim>\<open>Mem0Cache.__init__\<close>\<close>

definition Mem0Cache_init :: "int \<Rightarrow> 'v Mem0Cache" where
  "Mem0Cache_init m = \<lparr>cache = [], max_size = m, access_times = []\<rparr>"

text \<open>\<^verbatim>\<open>Mem0Cache.get\<close>, reading the clock as \<open>now\<close> on a hit.\<close>

definition get :: "(string \<Rightarrow> string) \<Rightarrow> string \<Rightarrow> time \<Rightarrow> 'v Mem0Cache \<Rightarrow> 'v option \<times> 'v Mem0Cache" where
  "get md5 claim now s =
     (let key = generate_key md5 claim in
      case map_of (cache s) key of
        Some fc \<Rightarrow> (Some fc, s\<lparr>access_times := AList.update key now (access_times s)\<rparr>)
      | None \<Rightarrow> (None, s))"

text \<open>\<^verbatim>\<open>min(self.access_times, key=self.access_times.get)\<close>: the keys are visited in
  insertion order and the first one with the least timestamp wins.\<close>

primrec oldest :: "string \<times> time \<Rightarrow> (string \<times> time) list \<Rightarrow> string \<times> time" where
  "oldest best [] = best"
| "oldest best (e # es) = oldest (if snd e < snd best then e else best) es"

text \<open>\<^verbatim>\<open>Mem0Cache._evict_oldest\<close>; \<^verbatim>\<open>del self.cache[oldest_key]\<close> raises \<^verbatim>\<open>KeyError\<close> when
  the key is not in \<^verbatim>\<open>cache\<close>, before anything is removed.\<close>

definition evict_oldest :: "'v Mem0Cache \<Rightarrow> error + 'v Mem0Cache" where
  "evict_oldest s =
     (case access_times s of
        [] \<Rightarrow> Inr s
      | e # es \<Rightarrow>
          (let oldest_key = fst (oldest e es) in
           if map_of (cache s) oldest_key = None then Inl (KeyError oldest_key)
           else Inr (s\<lparr>cache := AList.delete oldest_key (cache s),
                       access_times := AList.delete oldest_key (access_times s)\<rparr>)))"

text \<open>\<^verbatim>\<open>Mem0Cache.set\<close>, reading the clock as \<open>now\<close>.\<close>

definition set_cache :: "(string \<Rightarrow> string) \<Rightarrow> string \<Rightarrow> 'v \<Rightarrow> time \<Rightarrow> 'v Mem0Cache \<Rightarrow> error + 'v Mem0Cache" where
  "set_cache md5 claim fc now s =
     (case (if max_size s \<le> int (length (cache s)) then evict_oldest s else Inr s) of
        Inl e \<Rightarrow> Inl e
      | Inr s1 \<Rightarrow>
          (let key = generate_key md5 claim in
           Inr (s1\<lparr>cache := AList.update key fc (cache s1),
                    access_times := AList.update key now (access_times s1)\<rparr>)))"

text \<open>A caller's sequence of operations on one cache; an exception ends it.\<close>

datatype 'v call = Get string time | Set string 'v time | Evict

fun run_calls :: "(string \<Rightarrow> string) \<Rightarrow> 'v call list \<Rightarrow> 'v Mem0Cache \<Rightarrow> error + 'v Mem0Cache" where
  "run_calls md5 [] s = Inr s"
| "run_calls md5 (Get claim now # cs) s = run_calls md5 cs (snd (get md5 claim now s))"
| "run_calls md5 (Set claim fc now # cs) s =
     (case set_cache md5 claim fc now s of Inl e \<Rightarrow> Inl e | Inr s' \<Rightarrow> run_calls md5 cs s')"
| "run_calls md5 (Evict # cs) s =
     (case evict_oldest s of Inl e \<Rightarrow> Inl e | Inr s' \<Rightarrow> run_calls md5 cs s')"

text \<open>The keys of the two dictionaries.\<close>

definition cache_keys :: "'v Mem0Cache \<Rightarrow> string set" where
  "cache_keys s = fst ` set (cache s)"

definition access_keys :: "'v Mem0Cache \<Rightarrow> string set" where
  "access_keys s = fst ` set (access_times s)"

text \<open>The representation invariant of the two dictionaries: keys are unique, and both
  hold the same keys in the same order.\<close>

definition aligned :: "'v Mem0Cache \<Rightarrow> bool" where
  "aligned s \<longleftrightarrow> distinct (map fst (cache s)) \<and> map fst (access_times s) = map fst (cache s)"

text \<open>The digests \<^verbatim>\<open>hashlib.md5\<close> gives for the normalised claim texts of the worked
  examples (\<^verbatim>\<open>"a"\<close>, \<^verbatim>\<open>"b"\<close>, \<^verbatim>\<open>"c"\<close>); the examples apply it to no other text.\<close>

definition md5_sample :: "string \<Rightarrow> string" where
  "md5_sample t =
     (if t = ''a'' then ''0cc175b9c0f1b6a831c399e269772661''
      else if t = ''b'' then ''92eb5ffee6ae2fec3ad71c777531578f''
      else if t = ''c'' then ''4a8a08f09d37b73795649038408b5f33''
      else t)"

subsection \<open>AIProviderRotation\<close>

text \<open>A rate limit is an \<^verbatim>\<open>int\<close> or \<^verbatim>\<open>float("inf")\<close>.\<close>

datatype rate_limit = Finite int | Unbounded

text \<open>\<^verbatim>\<open>count < limit\<close> and \<^verbatim>\<open>count <= limit\<close> on such a limit.\<close>

fun below :: "int \<Rightarrow> rate_limit \<Rightarrow> bool" where
  "below c (Finite l) = (c < l)"
| "below c Unbounded = True"

fun at_most :: "int \<Rightarrow> rate_limit \<Rightarrow> bool" where
  "at_most c (Finite l) = (c \<le> l)"
| "at_most c Unbounded = True"

record AIProviderRotation =
  providers :: "string list"
  current_index :: int
  request_counts :: "string \<rightharpoonup> int"
  rate_limits :: "string \<rightharpoonup> rate_limit"
  reset_time :: time

text \<open>\<^verbatim>\<open>AIProviderRotation.__init__\<close>, reading the clock as \<open>now\<close>.\<close>

definition AIProviderRotation_init :: "time \<Rightarrow> AIProviderRotation" where
  "AIProviderRotation_init now =
     \<lparr>providers = [''gemini'', ''grok'', ''local''],
      current_index = 0,
      request_counts = map_of (map (\<lambda>p. (p, 0)) [''gemini'', ''grok'', ''local'']),
      rate_limits = [''gemini'' \<mapsto> Finite 60, ''grok'' \<mapsto> Finite 100, ''local'' \<mapsto> Unbounded],
      reset_time = now\<rparr>"

text \<open>\<^verbatim>\<open>timedelta(minutes=1)\<close> in microseconds.\<close>

definition minute :: int where
  "minute = 60000000"

text \<open>\<^verbatim>\<open>AIProviderRotation._reset_if_needed\<close>. The clock is read for the comparison
  (\<open>now1\<close>) and, when the window is stale, a second time for the new \<^verbatim>\<open>reset_time\<close>
  (\<open>now2\<close>).\<close>

definition reset_if_needed :: "time \<Rightarrow> time \<Rightarrow> AIProviderRotation \<Rightarrow> AIProviderRotation" where
  "reset_if_needed now1 now2 s =
     (if now1 - reset_time s > minute
      then s\<lparr>request_counts := map_of (map (\<lambda>p. (p, 0)) (providers s)), reset_time := now2\<rparr>
      else s)"

text \<open>\<^verbatim>\<open>xs[i]\<close> on a list: a negative index counts from the end, an index out of range
  raises \<^verbatim>\<open>IndexError\<close>.\<close>

definition item :: "'a list \<Rightarrow> int \<Rightarrow> error + 'a" where
  "item xs i =
     (if 0 \<le> i \<and> i < int (length xs) then Inr (xs ! nat i)
      else if i < 0 \<and> - int (length xs) \<le> i then Inr (xs ! nat (int (length xs) + i))
      else Inl IndexError)"

text \<open>The \<^verbatim>\<open>for\<close> loop of \<^verbatim>\<open>get_provider\<close> with \<open>n\<close> iterations left, and the
  \<^verbatim>\<open>return "local"\<close> that follows it. Indexing a dictionary at a missing key raises
  \<^verbatim>\<open>KeyError\<close>.\<close>

fun scan :: "nat \<Rightarrow> AIProviderRotation \<Rightarrow> error + (string \<times> AIProviderRotation)" where
  "scan 0 s = Inr (''local'', s)"
| "scan (Suc n) s =
     (case item (providers s) (current_index s) of
        Inl e \<Rightarrow> Inl e
      | Inr provider \<Rightarrow>
          (case request_counts s provider of
             None \<Rightarrow> Inl (KeyError provider)
           | Some c \<Rightarrow>
               (case rate_limits s provider of
                  None \<Rightarrow> Inl (KeyError provider)
                | Some l \<Rightarrow>
                    if below c l
                    then Inr (provider, s\<lparr>request_counts := (request_counts s)(provider \<mapsto> c + 1)\<rparr>)
                    else scan n (s\<lparr>current_index :=
                                      (current_index s + 1) mod int (length (providers s))\<rparr>))))"

text \<open>\<^verbatim>\<open>AIProviderRotation.get_provider\<close>\<close>

definition get_provider :: "time \<Rightarrow> time \<Rightarrow> AIProviderRotation \<Rightarrow> error + (string \<times> AIProviderRotation)" where
  "get_provider now1 now2 s =
     (let s0 = reset_if_needed now1 now2 s in scan (length (providers s0)) s0)"

text \<open>What the process environment and the network give a query: the two API keys
  (module constants read from the environment) and, for each remote provider, what the
  \<^verbatim>\<open>try\<close> block around \<^verbatim>\<open>session.post\<close> meets for a prompt. \<open>Status code body\<close>: a response
  with this status arrives; \<open>body\<close> is the text found in its JSON, or \<open>None\<close> when reading
  it raises. \<open>Failed\<close>: the request itself raises. Only exceptions derived from
  \<^verbatim>\<open>Exception\<close> are meant, the ones the \<^verbatim>\<open>except\<close> clause catches.\<close>

datatype outcome = Status int "string option" | Failed

record network =
  GEMINI_API_KEY :: string
  GROK_API_KEY :: string
  gemini_post :: "string \<Rightarrow> outcome"
  grok_post :: "string \<Rightarrow> outcome"

text \<open>\<^verbatim>\<open>AIProviderRotation._query_local\<close>\<close>

definition query_local :: "string \<Rightarrow> string" where
  "query_local prompt = ''[Local Analysis] Further research needed for: '' @ take 100 prompt @ ''...''"

text \<open>\<^verbatim>\<open>AIProviderRotation._query_grok\<close>\<close>

definition query_grok :: "network \<Rightarrow> string \<Rightarrow> string" where
  "query_grok net prompt =
     (if GROK_API_KEY net = [] then query_local prompt
      else case grok_post net prompt of
             Status code (Some text) \<Rightarrow> if code = 200 then text else query_local prompt
           | Status code None \<Rightarrow> query_local prompt
           | Failed \<Rightarrow> query_local prompt)"

text \<open>\<^verbatim>\<open>AIProviderRotation._query_gemini\<close>\<close>

definition query_gemini :: "network \<Rightarrow> string \<Rightarrow> string" where
  "query_gemini net prompt =
     (if GEMINI_API_KEY net = [] then query_local prompt
      else case gemini_post net prompt of
             Status code (Some text) \<Rightarrow> if code = 200 then text else query_grok net prompt
           | Status code None \<Rightarrow> query_grok net prompt
           | Failed \<Rightarrow> query_grok net prompt)"

text \<open>\<^verbatim>\<open>AIProviderRotation.query\<close>\<close>

definition query :: "network \<Rightarrow> string \<Rightarrow> time \<Rightarrow> time \<Rightarrow> AIProviderRotation \<Rightarrow> error + (string \<times> AIProviderRotation)" where
  "query net prompt now1 now2 s =
     (case get_provider now1 now2 s of
        Inl e \<Rightarrow> Inl e
      | Inr (provider, s') \<Rightarrow>
          Inr (if provider = ''gemini'' then query_gemini net prompt
               else if provider = ''grok'' then query_grok net prompt
               else query_local prompt, s'))"

text \<open>A sequence of \<^verbatim>\<open>get_provider\<close> calls, each with its two clock readings; the
  providers returned, in order, and the state left.\<close>

fun run_get_provider :: "(time \<times> time) list \<Rightarrow> AIProviderRotation \<Rightarrow> error + (string list \<times> AIProviderRotation)" where
  "run_get_provider [] s = Inr ([], s)"
| "run_get_provider ((now1, now2) # clock) s =
     (case get_provider now1 now2 s of
        Inl e \<Rightarrow> Inl e
      | Inr (p, s') \<Rightarrow>
          (case run_get_provider clock s' of
             Inl e \<Rightarrow> Inl e
           | Inr (ps, s'') \<Rightarrow> Inr (p # ps, s'')))"

text \<open>Every listed provider has a counter and a limit, and the cursor is a position of
  the list.\<close>

definition configured :: "AIProviderRotation \<Rightarrow> bool" where
  "configured s \<longleftrightarrow>
     list_all (\<lambda>p. request_counts s p \<noteq> None \<and> rate_limits s p \<noteq> None) (providers s) \<and>
     (providers s = [] \<or> (0 \<le> current_index s \<and> current_index s < int (length (providers s))))"

text \<open>No listed provider's counter is above its limit.\<close>

definition within_limits :: "AIProviderRotation \<Rightarrow> bool" where
  "within_limits s \<longleftrightarrow>
     list_all (\<lambda>p. case (request_counts s p, rate_limits s p) of
                      (Some c, Some l) \<Rightarrow> at_most c l
                    | _ \<Rightarrow> False) (providers s)"

text \<open>No listed provider has a negative limit.\<close>

definition limits_nonneg :: "AIProviderRotation \<Rightarrow> bool" where
  "limits_nonneg s \<longleftrightarrow>
     list_all (\<lambda>p. case rate_limits s p of Some l \<Rightarrow> at_most 0 l | None \<Rightarrow> False) (providers s)"

text \<open>The test of the loop, \<^verbatim>\<open>self.request_counts[provider] < self.rate_limits[provider]\<close>,
  as a predicate of the provider.\<close>

definition available :: "AIProviderRotation \<Rightarrow> string \<Rightarrow> bool" where
  "available s p \<longleftrightarrow>
     (case (request_counts s p, rate_limits s p) of
        (Some c, Some l) \<Rightarrow> below c l
      | _ \<Rightarrow> False)"

text \<open>A remote request that does not end in \<^verbatim>\<open>return\<close> inside the \<^verbatim>\<open>try\<close> block: the request
  raises, the status is not 200, or reading the body raises.\<close>

definition failed :: "outcome \<Rightarrow> bool" where
  "failed out \<longleftrightarrow>
     (case out of
        Status code (Some text) \<Rightarrow> code \<noteq> 200
      | Status code None \<Rightarrow> True
      | Failed \<Rightarrow> True)"

subsection \<open>Facts about the cache operations\<close>

lemma oldest_mem: "oldest b es \<in> set (b # es)"
  by (induction es arbitrary: b) (auto split: if_splits)

lemma oldest_least: "e \<in> set (b # es) \<Longrightarrow> snd (oldest b es) \<le> snd e"
proof (induction es arbitrary: b e)
  case Nil
  then show ?case by simp
next
  case (Cons a es)
  have step: "snd (oldest (if snd a < snd b then a else b) es) \<le> snd x"
    if "x \<in> set ((if snd a < snd b then a else b) # es)" for x
    using Cons.IH that by blast
  have top: "snd (oldest (if snd a < snd b then a else b) es) \<le> snd (if snd a < snd b then a else b)"
    using step by simp
  from Cons.prems consider "e = b" | "e = a" | "e \<in> set es" by auto
  then show ?case
  proof cases
    case 1 with top show ?thesis by (auto split: if_splits)
  next
    case 2 with top show ?thesis by (auto split: if_splits)
  next
    case 3 with step show ?thesis by simp
  qed
qed

lemma length_update_le: "length (AList.update k v al) \<le> Suc (length al)"
  by (induction al) auto

lemma length_delete_distinct:
  "distinct (map fst al) \<Longrightarrow> k \<in> fst ` set al \<Longrightarrow> Suc (length (AList.delete k al)) = length al"
proof (induction al)
  case Nil
  then show ?case by simp
next
  case (Cons p al)
  show ?case
  proof (cases "fst p = k")
    case True
    with Cons.prems have "k \<notin> fst ` set al" by auto
    with True show ?thesis by (cases p) simp
  next
    case False
    with Cons show ?thesis by (cases p) auto
  qed
qed

lemma aligned_init: "aligned (Mem0Cache_init m)"
  by (simp add: aligned_def Mem0Cache_init_def)

lemma aligned_get: "aligned s \<Longrightarrow> aligned (snd (get md5 claim now s))"
  by (auto simp: aligned_def get_def Let_def update_keys map_of_eq_None_iff split: option.splits
      dest!: map_of_SomeD) (metis fst_conv image_eqI set_map)+

lemma evict_aligned:
  assumes "aligned s"
  shows "\<exists>s'. evict_oldest s = Inr s' \<and> aligned s' \<and> max_size s' = max_size s \<and>
           length (cache s') \<le> length (cache s) \<and>
           (cache s \<noteq> [] \<longrightarrow> Suc (length (cache s')) = length (cache s))"
proof (cases "access_times s")
  case Nil
  with assms have "cache s = []" by (simp add: aligned_def)
  with Nil assms show ?thesis by (simp add: evict_oldest_def)
next
  case (Cons e es)
  let ?k = "fst (oldest e es)"
  have "?k \<in> fst ` set (access_times s)" using oldest_mem[of e es] Cons by (metis imageI)
  then have mem: "?k \<in> fst ` set (cache s)" using assms by (metis aligned_def set_map)
  then have "map_of (cache s) ?k \<noteq> None" by (simp add: map_of_eq_None_iff)
  moreover have "Suc (length (AList.delete ?k (cache s))) = length (cache s)"
  proof (rule length_delete_distinct)
    show "distinct (map fst (cache s))" using assms by (simp add: aligned_def)
    show "?k \<in> fst ` set (cache s)" by (rule mem)
  qed
  moreover have "aligned (s\<lparr>cache := AList.delete ?k (cache s),
                       access_times := AList.delete ?k (access_times s)\<rparr>)"
  proof -
    from assms have d: "distinct (map fst (cache s))"
      and e: "map fst (access_times s) = map fst (cache s)" by (simp_all add: aligned_def)
    show ?thesis by (simp add: aligned_def delete_keys distinct_removeAll d e)
  qed
  ultimately show ?thesis using Cons by (simp add: evict_oldest_def Let_def)
qed

lemma aligned_update:
  "aligned s \<Longrightarrow> aligned (s\<lparr>cache := AList.update k v (cache s),
                    access_times := AList.update k t (access_times s)\<rparr>)"
  by (auto simp: aligned_def update_keys)

lemma set_cache_aligned:
  assumes "aligned s"
  shows "\<exists>s'. set_cache md5 claim fc now s = Inr s' \<and> aligned s' \<and> max_size s' = max_size s"
proof (cases "max_size s \<le> int (length (cache s))")
  case True
  from evict_aligned[OF assms] obtain s1 where
    "evict_oldest s = Inr s1" "aligned s1" "max_size s1 = max_size s" by blast
  with True show ?thesis by (simp add: set_cache_def Let_def aligned_update)
next
  case False
  with assms show ?thesis by (simp add: set_cache_def Let_def aligned_update)
qed

lemma set_cache_invariant:
  assumes al: "aligned s" and pos: "1 \<le> max_size s" and cap: "int (length (cache s)) \<le> max_size s"
  shows "\<exists>s'. set_cache md5 claim fc now s = Inr s' \<and> aligned s' \<and> max_size s' = max_size s \<and>
           int (length (cache s')) \<le> max_size s'"
proof (cases "max_size s \<le> int (length (cache s))")
  case True
  with pos have "cache s \<noteq> []" by auto
  with evict_aligned[OF al] obtain s1 where
    s1: "evict_oldest s = Inr s1" "aligned s1" "max_size s1 = max_size s"
      "Suc (length (cache s1)) = length (cache s)" by blast
  let ?k = "generate_key md5 claim"
  let ?s' = "s1\<lparr>cache := AList.update ?k fc (cache s1),
                 access_times := AList.update ?k now (access_times s1)\<rparr>"
  have "set_cache md5 claim fc now s = Inr ?s'"
    using True s1(1) by (simp add: set_cache_def Let_def)
  moreover have "aligned ?s'" using s1(2) by (rule aligned_update)
  moreover have "int (length (cache ?s')) \<le> max_size ?s'"
    using length_update_le[of ?k fc "cache s1"] s1(3,4) cap by simp
  ultimately show ?thesis using s1(3) by simp
next
  case False
  let ?k = "generate_key md5 claim"
  let ?s' = "s\<lparr>cache := AList.update ?k fc (cache s),
                access_times := AList.update ?k now (access_times s)\<rparr>"
  have "set_cache md5 claim fc now s = Inr ?s'"
    using False by (simp add: set_cache_def Let_def)
  moreover have "aligned ?s'" using al by (rule aligned_update)
  moreover have "int (length (cache ?s')) \<le> max_size ?s'"
    using length_update_le[of ?k fc "cache s"] False by simp
  ultimately show ?thesis by simp
qed

lemma run_calls_invariant:
  assumes "aligned s" and "1 \<le> max_size s" and "int (length (cache s)) \<le> max_size s"
  shows "\<exists>s'. run_calls md5 cs s = Inr s' \<and> aligned s' \<and> max_size s' = max_size s \<and>
           int (length (cache s')) \<le> max_size s'"
  using assms
proof (induction cs arbitrary: s)
  case Nil
  then show ?case by simp
next
  case (Cons c cs)
  show ?case
  proof (cases c)
    case (Get claim now)
    let ?s1 = "snd (get md5 claim now s)"
    have "aligned ?s1" using Cons.prems(1) by (rule aligned_get)
    moreover have "max_size ?s1 = max_size s" "cache ?s1 = cache s"
      by (simp_all add: get_def Let_def split: option.splits)
    ultimately show ?thesis using Cons.IH[of ?s1] Cons.prems Get by simp
  next
    case (Set claim fc now)
    from set_cache_invariant[OF Cons.prems, of md5 claim fc now] obtain s1 where
      s1: "set_cache md5 claim fc now s = Inr s1" "aligned s1" "max_size s1 = max_size s"
        "int (length (cache s1)) \<le> max_size s1" by blast
    with Cons.IH[of s1] Cons.prems Set show ?thesis by simp
  next
    case Evict
    from evict_aligned[OF Cons.prems(1)] obtain s1 where
      s1: "evict_oldest s = Inr s1" "aligned s1" "max_size s1 = max_size s"
        "length (cache s1) \<le> length (cache s)" by blast
    with Cons.prems have "int (length (cache s1)) \<le> max_size s1" by simp
    with Cons.IH[of s1] s1 Cons.prems Evict show ?thesis by simp
  qed
qed

lemma run_calls_aligned:
  "aligned s \<Longrightarrow> \<exists>s'. run_calls md5 cs s = Inr s' \<and> aligned s'"
proof (induction cs arbitrary: s)
  case Nil
  then show ?case by simp
next
  case (Cons c cs)
  show ?case
  proof (cases c)
    case (Get claim now)
    with Cons.IH[OF aligned_get[OF Cons.prems]] show ?thesis by simp
  next
    case (Set claim fc now)
    from set_cache_aligned[OF Cons.prems, of md5 claim fc now] obtain s1 where
      "set_cache md5 claim fc now s = Inr s1" "aligned s1" by blast
    with Cons.IH[of s1] Set show ?thesis by simp
  next
    case Evict
    from evict_aligned[OF Cons.prems] obtain s1 where
      "evict_oldest s = Inr s1" "aligned s1" by blast
    with Cons.IH[of s1] Evict show ?thesis by simp
  qed
qed

lemma aligned_keys: "aligned s \<Longrightarrow> cache_keys s = access_keys s"
  by (metis aligned_def cache_keys_def access_keys_def set_map)

lemma aligned_card: "aligned s \<Longrightarrow> card (cache_keys s) = length (cache s)"
  by (metis aligned_def cache_keys_def set_map distinct_card length_map)


text \<open>The keys of the sample claims, computed from the definitions.\<close>

lemma key_a: "generate_key md5_sample ''a'' = ''0cc175b9c0f1b6a831c399e269772661''"
  by code_simp

lemma key_b: "generate_key md5_sample '' B '' = ''92eb5ffee6ae2fec3ad71c777531578f''"
  by code_simp

lemma key_c: "generate_key md5_sample ''c'' = ''4a8a08f09d37b73795649038408b5f33''"
  by code_simp

lemma keys_delete: "fst ` set (AList.delete k al) = fst ` set al - {k}"
  using delete_keys[of k al] by (metis set_map set_removeAll)

lemma evict_removes_least:
  assumes "aligned s" and "access_times s \<noteq> []"
  shows "\<exists>k t s'. evict_oldest s = Inr s' \<and> (k, t) \<in> set (access_times s) \<and>
           (\<forall>e \<in> set (access_times s). t \<le> snd e) \<and>
           cache_keys s' = cache_keys s - {k} \<and> access_keys s' = access_keys s - {k}"
proof -
  from assms(2) obtain e es where es: "access_times s = e # es" by (cases "access_times s") auto
  let ?k = "fst (oldest e es)" and ?t = "snd (oldest e es)"
  let ?s' = "s\<lparr>cache := AList.delete ?k (cache s),
                access_times := AList.delete ?k (access_times s)\<rparr>"
  have mem: "(?k, ?t) \<in> set (access_times s)" using oldest_mem[of e es] es by simp
  then have "?k \<in> fst ` set (access_times s)" by (metis fst_conv imageI)
  then have "?k \<in> fst ` set (cache s)" using assms(1) by (metis aligned_def set_map)
  then have "map_of (cache s) ?k \<noteq> None" by (simp add: map_of_eq_None_iff)
  then have ev: "evict_oldest s = Inr ?s'" using es by (simp add: evict_oldest_def Let_def)
  have least: "\<forall>x \<in> set (access_times s). ?t \<le> snd x"
    using oldest_least[of _ e es] es by simp
  have k1: "cache_keys ?s' = cache_keys s - {?k}"
    by (simp add: cache_keys_def keys_delete)
  have k2: "access_keys ?s' = access_keys s - {?k}"
    by (simp add: access_keys_def keys_delete)
  show ?thesis
    apply (rule exI[of _ ?k], rule exI[of _ ?t], rule exI[of _ ?s'])
    using ev mem least k1 k2 by simp
qed

lemma lru_run:
  assumes d: "ka \<noteq> kb" "ka \<noteq> kc" "kb \<noteq> kc" and t: "t1 < t2" "t2 < t3" "t3 < t4"
    and k: "generate_key md5 a = ka" "generate_key md5 b = kb" "generate_key md5 c = kc"
  shows "run_calls md5 [Set a va t1, Set b vb t2, Get a t3, Set c vc t4] (Mem0Cache_init 2)
       = Inr \<lparr>cache = [(ka, va), (kc, vc)], max_size = 2, access_times = [(ka, t3), (kc, t4)]\<rparr>"
proof -
  let ?s1 = "\<lparr>cache = [(ka, va)], max_size = 2, access_times = [(ka, t1)]\<rparr>"
  let ?s2 = "\<lparr>cache = [(ka, va), (kb, vb)], max_size = 2, access_times = [(ka, t1), (kb, t2)]\<rparr>"
  let ?s3 = "\<lparr>cache = [(ka, va), (kb, vb)], max_size = 2, access_times = [(ka, t3), (kb, t2)]\<rparr>"
  let ?s4 = "\<lparr>cache = [(ka, va), (kc, vc)], max_size = 2, access_times = [(ka, t3), (kc, t4)]\<rparr>"
  have 1: "set_cache md5 a va t1 (Mem0Cache_init 2) = Inr ?s1"
    by (simp add: set_cache_def Let_def Mem0Cache_init_def k)
  have 2: "set_cache md5 b vb t2 ?s1 = Inr ?s2"
    using d by (simp add: set_cache_def Let_def k)
  have 3: "get md5 a t3 ?s2 = (Some va, ?s3)"
    using d by (simp add: get_def Let_def k)
  have ev: "evict_oldest ?s3 = Inr \<lparr>cache = [(ka, va)], max_size = 2, access_times = [(ka, t3)]\<rparr>"
    using d t by (simp add: evict_oldest_def Let_def)
  have 4: "set_cache md5 c vc t4 ?s3 = Inr ?s4"
    using d by (simp add: set_cache_def Let_def k ev)
  show ?thesis by (simp add: 1 2 3 4)
qed

subsection \<open>Claims about Mem0Cache\<close>

text \<open>
  C9. Starting from the empty cache, after any sequence of \<^verbatim>\<open>get\<close>, \<^verbatim>\<open>set\<close> and
  \<^verbatim>\<open>_evict_oldest\<close> calls, no call has raised and the keys of \<^verbatim>\<open>cache\<close> are exactly
  the keys of \<^verbatim>\<open>access_times\<close>.
\<close>

theorem keys_in_step:
  "\<exists>s. run_calls md5 cs (Mem0Cache_init m) = Inr s \<and> cache_keys s = access_keys s"
  using run_calls_aligned[OF aligned_init, of md5 cs m] aligned_keys by blast

text \<open>
  C1, for a positive capacity. For a cache constructed with \<^verbatim>\<open>max_size\<close> at least 1, after every prefix
  of every sequence of calls the cache holds at most \<^verbatim>\<open>max_size\<close> distinct keys.
\<close>

theorem capacity_bound:
  assumes "1 \<le> m"
  shows "\<exists>s. run_calls md5 (take n cs) (Mem0Cache_init m) = Inr s \<and> int (card (cache_keys s)) \<le> m"
proof -
  have "aligned (Mem0Cache_init m :: 'a Mem0Cache)" by (rule aligned_init)
  moreover have "1 \<le> max_size (Mem0Cache_init m :: 'a Mem0Cache)"
    using assms by (simp add: Mem0Cache_init_def)
  moreover have "int (length (cache (Mem0Cache_init m :: 'a Mem0Cache))) \<le> max_size (Mem0Cache_init m :: 'a Mem0Cache)"
    using assms by (simp add: Mem0Cache_init_def)
  ultimately obtain s where s: "run_calls md5 (take n cs) (Mem0Cache_init m :: 'a Mem0Cache) = Inr s"
    "aligned s" "max_size s = max_size (Mem0Cache_init m :: 'a Mem0Cache)" "int (length (cache s)) \<le> max_size s"
    using run_calls_invariant by blast
  then show ?thesis by (simp add: aligned_card Mem0Cache_init_def)
qed

theorem capacity_bound_witness:
  "(1::int) \<le> 2
   \<and> run_calls md5_sample [Set ''a'' ''x'' 1, Set '' B '' ''y'' 2, Set ''c'' ''z'' 3] (Mem0Cache_init 2)
     = Inr \<lparr>cache = [(''92eb5ffee6ae2fec3ad71c777531578f'', ''y''),
                      (''4a8a08f09d37b73795649038408b5f33'', ''z'')], max_size = 2,
            access_times = [(''92eb5ffee6ae2fec3ad71c777531578f'', 2),
                            (''4a8a08f09d37b73795649038408b5f33'', 3)]\<rparr>
   \<and> int (card (cache_keys \<lparr>cache = [(''92eb5ffee6ae2fec3ad71c777531578f'', ''y''),
                      (''4a8a08f09d37b73795649038408b5f33'', ''z'')], max_size = 2,
            access_times = [(''92eb5ffee6ae2fec3ad71c777531578f'', 2),
                            (''4a8a08f09d37b73795649038408b5f33'', 3)]\<rparr>)) \<le> 2"
proof -
  let ?cs = "[Set ''a'' ''x'' 1, Set '' B '' ''y'' 2, Set ''c'' ''z'' 3]"
  let ?S = "\<lparr>cache = [(''92eb5ffee6ae2fec3ad71c777531578f'', ''y''),
                      (''4a8a08f09d37b73795649038408b5f33'', ''z'')], max_size = 2,
            access_times = [(''92eb5ffee6ae2fec3ad71c777531578f'', 2::int),
                            (''4a8a08f09d37b73795649038408b5f33'', 3)]\<rparr>"
  have pos: "(1::int) \<le> 2" by simp
  have run: "run_calls md5_sample ?cs (Mem0Cache_init 2) = Inr ?S"
    by (simp add: set_cache_def evict_oldest_def Mem0Cache_init_def key_a key_b key_c Let_def)
  from capacity_bound[OF pos, of md5_sample 3 ?cs] run
  have bound: "int (card (cache_keys ?S)) \<le> 2" by simp
  show ?thesis by (intro conjI pos run bound)
qed

text \<open>
  C1 as stated fails for \<^verbatim>\<open>Mem0Cache(max_size=0)\<close>: the eviction finds nothing to remove
  and the entry is stored, so the cache holds one key.
\<close>

theorem capacity_zero_counterexample:
  "run_calls md5_sample [Set ''a'' ''x'' 1] (Mem0Cache_init 0)
     = Inr \<lparr>cache = [(''0cc175b9c0f1b6a831c399e269772661'', ''x'')], max_size = 0,
            access_times = [(''0cc175b9c0f1b6a831c399e269772661'', 1)]\<rparr>
   \<and> \<not> int (card (cache_keys \<lparr>cache = [(''0cc175b9c0f1b6a831c399e269772661'', ''x'')], max_size = 0,
            access_times = [(''0cc175b9c0f1b6a831c399e269772661'', 1)]\<rparr>)) \<le> 0"
  by (simp add: set_cache_def evict_oldest_def Mem0Cache_init_def key_a cache_keys_def Let_def)

text \<open>
  C10. When the normalised key of a claim is not in the cache, \<^verbatim>\<open>get\<close> returns \<^verbatim>\<open>None\<close>
  and the cache is the same afterwards: entries, values, timestamps and size.
\<close>

theorem get_miss_unchanged:
  "map_of (cache s) (generate_key md5 claim) = None \<Longrightarrow> get md5 claim now s = (None, s)"
  by (simp add: get_def Let_def)

theorem get_miss_unchanged_witness:
  "map_of (cache \<lparr>cache = [(''0cc175b9c0f1b6a831c399e269772661'', ''x'')], max_size = 2,
              access_times = [(''0cc175b9c0f1b6a831c399e269772661'', 1)]\<rparr>)
          (generate_key md5_sample '' B '') = None
   \<and> get md5_sample '' B '' 5
        \<lparr>cache = [(''0cc175b9c0f1b6a831c399e269772661'', ''x'')], max_size = 2,
         access_times = [(''0cc175b9c0f1b6a831c399e269772661'', 1)]\<rparr>
      = (None, \<lparr>cache = [(''0cc175b9c0f1b6a831c399e269772661'', ''x'')], max_size = 2,
                access_times = [(''0cc175b9c0f1b6a831c399e269772661'', 1)]\<rparr>)"
proof -
  have miss: "map_of (cache \<lparr>cache = [(''0cc175b9c0f1b6a831c399e269772661'', ''x'')], max_size = 2,
              access_times = [(''0cc175b9c0f1b6a831c399e269772661'', 1)]\<rparr>)
          (generate_key md5_sample '' B '') = None"
    by (simp add: key_b)
  from miss get_miss_unchanged[OF miss, of 5] show ?thesis by simp
qed

text \<open>
  C7. With \<^verbatim>\<open>max_size = 2\<close>, three claims with distinct keys and strictly increasing
  clock readings, \<^verbatim>\<open>set(A); set(B); get(A); set(C)\<close> leaves exactly A and C in the cache:
  B, the entry with the oldest access time, is the one evicted. In general, on a cache
  whose two dictionaries are in step and not empty, \<^verbatim>\<open>_evict_oldest\<close> removes from both
  dictionaries a key whose access time is the least of all.
\<close>

theorem lru_evicts_oldest:
  "(generate_key md5 a \<noteq> generate_key md5 b \<and> generate_key md5 a \<noteq> generate_key md5 c \<and>
    generate_key md5 b \<noteq> generate_key md5 c \<and> t1 < t2 \<and> t2 < t3 \<and> t3 < t4 \<longrightarrow>
      run_calls md5 [Set a va t1, Set b vb t2, Get a t3, Set c vc t4] (Mem0Cache_init 2)
        = Inr \<lparr>cache = [(generate_key md5 a, va), (generate_key md5 c, vc)], max_size = 2,
               access_times = [(generate_key md5 a, t3), (generate_key md5 c, t4)]\<rparr>)
   \<and> (aligned s \<and> access_times s \<noteq> [] \<longrightarrow>
        (\<exists>k t s'. evict_oldest s = Inr s' \<and> (k, t) \<in> set (access_times s) \<and>
           (\<forall>e \<in> set (access_times s). t \<le> snd e) \<and>
           cache_keys s' = cache_keys s - {k} \<and> access_keys s' = access_keys s - {k}))"
proof (intro conjI impI)
  assume h: "generate_key md5 a \<noteq> generate_key md5 b \<and> generate_key md5 a \<noteq> generate_key md5 c \<and>
    generate_key md5 b \<noteq> generate_key md5 c \<and> t1 < t2 \<and> t2 < t3 \<and> t3 < t4"
  then show "run_calls md5 [Set a va t1, Set b vb t2, Get a t3, Set c vc t4] (Mem0Cache_init 2)
        = Inr \<lparr>cache = [(generate_key md5 a, va), (generate_key md5 c, vc)], max_size = 2,
               access_times = [(generate_key md5 a, t3), (generate_key md5 c, t4)]\<rparr>"
    by (intro lru_run) simp_all
next
  assume "aligned s \<and> access_times s \<noteq> []"
  then show "\<exists>k t s'. evict_oldest s = Inr s' \<and> (k, t) \<in> set (access_times s) \<and>
           (\<forall>e \<in> set (access_times s). t \<le> snd e) \<and>
           cache_keys s' = cache_keys s - {k} \<and> access_keys s' = access_keys s - {k}"
    by (intro evict_removes_least) simp_all
qed

theorem lru_evicts_oldest_witness:
  "(generate_key md5_sample ''a'' \<noteq> generate_key md5_sample '' B '' \<and>
    generate_key md5_sample ''a'' \<noteq> generate_key md5_sample ''c'' \<and>
    generate_key md5_sample '' B '' \<noteq> generate_key md5_sample ''c'' \<and>
    (1::int) < 2 \<and> (2::int) < 3 \<and> (3::int) < 4)
   \<and> run_calls md5_sample [Set ''a'' ''x'' 1, Set '' B '' ''y'' 2, Get ''a'' 3, Set ''c'' ''z'' 4]
        (Mem0Cache_init 2)
      = Inr \<lparr>cache = [(''0cc175b9c0f1b6a831c399e269772661'', ''x''),
                       (''4a8a08f09d37b73795649038408b5f33'', ''z'')], max_size = 2,
             access_times = [(''0cc175b9c0f1b6a831c399e269772661'', 3),
                             (''4a8a08f09d37b73795649038408b5f33'', 4)]\<rparr>
   \<and> (aligned \<lparr>cache = [(''0cc175b9c0f1b6a831c399e269772661'', ''x''),
                        (''92eb5ffee6ae2fec3ad71c777531578f'', ''y'')], max_size = 2,
                access_times = [(''0cc175b9c0f1b6a831c399e269772661'', 3),
                                (''92eb5ffee6ae2fec3ad71c777531578f'', 2)]\<rparr> \<and>
       access_times \<lparr>cache = [(''0cc175b9c0f1b6a831c399e269772661'', ''x''),
                        (''92eb5ffee6ae2fec3ad71c777531578f'', ''y'')], max_size = 2,
                access_times = [(''0cc175b9c0f1b6a831c399e269772661'', 3),
                                (''92eb5ffee6ae2fec3ad71c777531578f'', 2)]\<rparr> \<noteq> [])
   \<and> evict_oldest \<lparr>cache = [(''0cc175b9c0f1b6a831c399e269772661'', ''x''),
                        (''92eb5ffee6ae2fec3ad71c777531578f'', ''y'')], max_size = 2,
                access_times = [(''0cc175b9c0f1b6a831c399e269772661'', 3),
                                (''92eb5ffee6ae2fec3ad71c777531578f'', 2)]\<rparr>
      = Inr \<lparr>cache = [(''0cc175b9c0f1b6a831c399e269772661'', ''x'')], max_size = 2,
             access_times = [(''0cc175b9c0f1b6a831c399e269772661'', 3)]\<rparr>"
proof -
  let ?S = "\<lparr>cache = [(''0cc175b9c0f1b6a831c399e269772661'', ''x''),
                        (''92eb5ffee6ae2fec3ad71c777531578f'', ''y'')], max_size = 2,
                access_times = [(''0cc175b9c0f1b6a831c399e269772661'', 3::int),
                                (''92eb5ffee6ae2fec3ad71c777531578f'', 2)]\<rparr>"
  note th = lru_evicts_oldest[of md5_sample "''a''" "'' B ''" "''c''" 1 2 3 4 "''x''" "''y''" "''z''" ?S]
  have A: "generate_key md5_sample ''a'' \<noteq> generate_key md5_sample '' B '' \<and>
    generate_key md5_sample ''a'' \<noteq> generate_key md5_sample ''c'' \<and>
    generate_key md5_sample '' B '' \<noteq> generate_key md5_sample ''c'' \<and>
    (1::int) < 2 \<and> (2::int) < 3 \<and> (3::int) < 4"
    by (simp add: key_a key_b key_c)
  have B: "aligned ?S \<and> access_times ?S \<noteq> []" by (simp add: aligned_def)
  have R: "run_calls md5_sample [Set ''a'' ''x'' 1, Set '' B '' ''y'' 2, Get ''a'' 3, Set ''c'' ''z'' 4]
        (Mem0Cache_init 2)
      = Inr \<lparr>cache = [(''0cc175b9c0f1b6a831c399e269772661'', ''x''),
                       (''4a8a08f09d37b73795649038408b5f33'', ''z'')], max_size = 2,
             access_times = [(''0cc175b9c0f1b6a831c399e269772661'', 3),
                             (''4a8a08f09d37b73795649038408b5f33'', 4)]\<rparr>"
    using th[THEN conjunct1, THEN mp, OF A] by (simp only: key_a key_c)
  have E: "evict_oldest ?S
      = Inr \<lparr>cache = [(''0cc175b9c0f1b6a831c399e269772661'', ''x'')], max_size = 2,
             access_times = [(''0cc175b9c0f1b6a831c399e269772661'', 3)]\<rparr>"
    by (simp add: evict_oldest_def Let_def)
  show ?thesis by (rule conjI[OF A conjI[OF R conjI[OF B E]]])
qed

text \<open>
  C5, below capacity. When the first \<^verbatim>\<open>set(K, V)\<close> leaves the cache below \<^verbatim>\<open>max_size\<close>, a second
  \<^verbatim>\<open>set(K, V)\<close> returns normally and changes nothing but K's timestamp: \<^verbatim>\<open>cache\<close> is as it
  was (same keys in the same order, same size, same values, K bound to V), \<^verbatim>\<open>max_size\<close> is
  as it was, and \<^verbatim>\<open>access_times\<close> is as it was except that K now has the second clock
  reading; every other key keeps its timestamp.
\<close>

theorem set_twice_below_capacity:
  assumes first: "set_cache md5 claim fc t1 s = Inr s1"
    and room: "int (length (cache s1)) < max_size s1"
  shows "\<exists>s2. set_cache md5 claim fc t2 s1 = Inr s2 \<and> cache s2 = cache s1 \<and>
           max_size s2 = max_size s1 \<and>
           map fst (access_times s2) = map fst (access_times s1) \<and>
           map_of (cache s2) (generate_key md5 claim) = Some fc \<and>
           s2 = s1\<lparr>access_times := AList.update (generate_key md5 claim) t2 (access_times s1)\<rparr> \<and>
           map_of (access_times s2) (generate_key md5 claim) = Some t2 \<and>
           (\<forall>k. k \<noteq> generate_key md5 claim \<longrightarrow>
                map_of (access_times s2) k = map_of (access_times s1) k)"
proof -
  let ?k = "generate_key md5 claim"
  obtain s0 where s0: "(if max_size s \<le> int (length (cache s)) then evict_oldest s else Inr s) = Inr s0"
    using first by (cases "if max_size s \<le> int (length (cache s)) then evict_oldest s else Inr s")
      (simp_all add: set_cache_def)
  have s1: "s1 = s0\<lparr>cache := AList.update ?k fc (cache s0),
                  access_times := AList.update ?k t1 (access_times s0)\<rparr>"
    using first s0 by (simp add: set_cache_def Let_def)
  let ?s2 = "s1\<lparr>cache := AList.update ?k fc (cache s1),
                 access_times := AList.update ?k t2 (access_times s1)\<rparr>"
  have a: "set_cache md5 claim fc t2 s1 = Inr ?s2"
    using room by (simp add: set_cache_def Let_def)
  have same: "AList.update ?k fc (cache s1) = cache s1" by (simp add: s1)
  have e: "?s2 = s1\<lparr>access_times := AList.update ?k t2 (access_times s1)\<rparr>"
    by (simp add: same)
  have b: "cache ?s2 = cache s1" by (simp add: same)
  have m: "max_size ?s2 = max_size s1" by simp
  have c: "map fst (access_times ?s2) = map fst (access_times s1)"
    by (simp add: s1 update_keys dom_update)
  have d: "map_of (cache ?s2) ?k = Some fc" by (simp add: s1 update_conv')
  have f: "map_of (access_times ?s2) ?k = Some t2" by (simp add: update_conv')
  have g: "\<forall>k. k \<noteq> ?k \<longrightarrow> map_of (access_times ?s2) k = map_of (access_times s1) k"
    by (simp add: update_conv')
  show ?thesis
    by (rule exI[of _ ?s2]) (intro conjI a b m c d e f g)
qed

theorem set_twice_below_capacity_witness:
  "set_cache md5_sample '' B '' ''y'' 2
        \<lparr>cache = [(''0cc175b9c0f1b6a831c399e269772661'', ''x'')], max_size = 3,
         access_times = [(''0cc175b9c0f1b6a831c399e269772661'', 1)]\<rparr>
     = Inr \<lparr>cache = [(''0cc175b9c0f1b6a831c399e269772661'', ''x''),
                      (''92eb5ffee6ae2fec3ad71c777531578f'', ''y'')], max_size = 3,
            access_times = [(''0cc175b9c0f1b6a831c399e269772661'', 1),
                            (''92eb5ffee6ae2fec3ad71c777531578f'', 2)]\<rparr>
   \<and> int (length (cache \<lparr>cache = [(''0cc175b9c0f1b6a831c399e269772661'', ''x''),
                      (''92eb5ffee6ae2fec3ad71c777531578f'', ''y'')], max_size = 3,
            access_times = [(''0cc175b9c0f1b6a831c399e269772661'', 1::int),
                            (''92eb5ffee6ae2fec3ad71c777531578f'', 2)]\<rparr>)) < 3
   \<and> set_cache md5_sample '' B '' ''y'' 5
        \<lparr>cache = [(''0cc175b9c0f1b6a831c399e269772661'', ''x''),
                      (''92eb5ffee6ae2fec3ad71c777531578f'', ''y'')], max_size = 3,
            access_times = [(''0cc175b9c0f1b6a831c399e269772661'', 1),
                            (''92eb5ffee6ae2fec3ad71c777531578f'', 2)]\<rparr>
     = Inr \<lparr>cache = [(''0cc175b9c0f1b6a831c399e269772661'', ''x''),
                      (''92eb5ffee6ae2fec3ad71c777531578f'', ''y'')], max_size = 3,
            access_times = [(''0cc175b9c0f1b6a831c399e269772661'', 1),
                            (''92eb5ffee6ae2fec3ad71c777531578f'', 5)]\<rparr>"
proof -
  let ?S0 = "\<lparr>cache = [(''0cc175b9c0f1b6a831c399e269772661'', ''x'')], max_size = 3,
         access_times = [(''0cc175b9c0f1b6a831c399e269772661'', 1::int)]\<rparr>"
  let ?S1 = "\<lparr>cache = [(''0cc175b9c0f1b6a831c399e269772661'', ''x''),
                      (''92eb5ffee6ae2fec3ad71c777531578f'', ''y'')], max_size = 3,
            access_times = [(''0cc175b9c0f1b6a831c399e269772661'', 1::int),
                            (''92eb5ffee6ae2fec3ad71c777531578f'', 2)]\<rparr>"
  have first: "set_cache md5_sample '' B '' ''y'' 2 ?S0 = Inr ?S1"
    by (simp add: set_cache_def key_b Let_def)
  have room: "int (length (cache ?S1)) < max_size ?S1" by simp
  have room': "int (length (cache ?S1)) < 3" by simp
  from set_twice_below_capacity[OF first room, of 5] obtain s2 where
    run: "set_cache md5_sample '' B '' ''y'' 5 ?S1 = Inr s2"
    and eq: "s2 = ?S1\<lparr>access_times := AList.update (generate_key md5_sample '' B '') 5 (access_times ?S1)\<rparr>"
    by blast
  from eq have "s2 = \<lparr>cache = [(''0cc175b9c0f1b6a831c399e269772661'', ''x''),
                      (''92eb5ffee6ae2fec3ad71c777531578f'', ''y'')], max_size = 3,
            access_times = [(''0cc175b9c0f1b6a831c399e269772661'', 1),
                            (''92eb5ffee6ae2fec3ad71c777531578f'', 5)]\<rparr>"
    by (simp add: key_b)
  with run have second: "set_cache md5_sample '' B '' ''y'' 5 ?S1
     = Inr \<lparr>cache = [(''0cc175b9c0f1b6a831c399e269772661'', ''x''),
                      (''92eb5ffee6ae2fec3ad71c777531578f'', ''y'')], max_size = 3,
            access_times = [(''0cc175b9c0f1b6a831c399e269772661'', 1),
                            (''92eb5ffee6ae2fec3ad71c777531578f'', 5)]\<rparr>"
    by simp
  show ?thesis by (intro conjI first room' second)
qed

text \<open>
  C5 as stated fails at capacity: \<^verbatim>\<open>set\<close> compares \<^verbatim>\<open>len(self.cache)\<close> with \<^verbatim>\<open>max_size\<close>
  before it looks at the key. With \<^verbatim>\<open>max_size = 2\<close>, after \<^verbatim>\<open>set(A); set(B)\<close> the cache holds
  A and B; a second \<^verbatim>\<open>set(B)\<close> with the same value evicts A.
\<close>

theorem set_twice_at_capacity_counterexample:
  "run_calls md5_sample [Set ''a'' ''x'' 1, Set '' B '' ''y'' 2] (Mem0Cache_init 2)
     = Inr \<lparr>cache = [(''0cc175b9c0f1b6a831c399e269772661'', ''x''),
                      (''92eb5ffee6ae2fec3ad71c777531578f'', ''y'')], max_size = 2,
            access_times = [(''0cc175b9c0f1b6a831c399e269772661'', 1),
                            (''92eb5ffee6ae2fec3ad71c777531578f'', 2)]\<rparr>
   \<and> run_calls md5_sample [Set ''a'' ''x'' 1, Set '' B '' ''y'' 2, Set '' B '' ''y'' 3] (Mem0Cache_init 2)
     = Inr \<lparr>cache = [(''92eb5ffee6ae2fec3ad71c777531578f'', ''y'')], max_size = 2,
            access_times = [(''92eb5ffee6ae2fec3ad71c777531578f'', 3)]\<rparr>"
  by (simp add: set_cache_def evict_oldest_def Mem0Cache_init_def key_a key_b Let_def)

subsection \<open>Facts about the rotation\<close>

lemma map_of_zero: "p \<in> set ps \<Longrightarrow> map_of (map (\<lambda>p. (p, 0::int)) ps) p = Some 0"
  by (induction ps) auto

lemma reset_frame [simp]:
  "providers (reset_if_needed now1 now2 s) = providers s"
  "rate_limits (reset_if_needed now1 now2 s) = rate_limits s"
  "current_index (reset_if_needed now1 now2 s) = current_index s"
  by (simp_all add: reset_if_needed_def)

lemma configuredD:
  "configured s \<Longrightarrow> p \<in> set (providers s) \<Longrightarrow>
   \<exists>c l. request_counts s p = Some c \<and> rate_limits s p = Some l"
  by (auto simp: configured_def list_all_iff)

lemma configured_index:
  "configured s \<Longrightarrow> providers s \<noteq> [] \<Longrightarrow>
   0 \<le> current_index s \<and> current_index s < int (length (providers s))"
  by (auto simp: configured_def)

lemma configured_reset: "configured s \<Longrightarrow> configured (reset_if_needed now1 now2 s)"
  by (auto simp: configured_def reset_if_needed_def list_all_iff map_of_zero)

lemma limits_nonneg_reset: "limits_nonneg s \<Longrightarrow> limits_nonneg (reset_if_needed now1 now2 s)"
  by (simp add: limits_nonneg_def)

lemma within_limits_reset:
  "limits_nonneg s \<Longrightarrow> within_limits s \<Longrightarrow> within_limits (reset_if_needed now1 now2 s)"
  by (auto simp: within_limits_def limits_nonneg_def reset_if_needed_def list_all_iff map_of_zero
      split: option.splits)

lemma item_in_range:
  "0 \<le> i \<Longrightarrow> i < int (length xs) \<Longrightarrow> item xs i = Inr (xs ! nat i)"
  by (simp add: item_def)

lemma below_at_most: "below c l \<Longrightarrow> at_most (c + 1) l"
  by (cases l) auto

lemma configured_bump:
  "configured s \<Longrightarrow> configured (s\<lparr>request_counts := (request_counts s)(p \<mapsto> c)\<rparr>)"
  by (auto simp: configured_def list_all_iff)

lemma within_limits_bump:
  "within_limits s \<Longrightarrow> rate_limits s p = Some l \<Longrightarrow> at_most c l \<Longrightarrow>
   within_limits (s\<lparr>request_counts := (request_counts s)(p \<mapsto> c)\<rparr>)"
  by (auto simp: within_limits_def list_all_iff)

lemma configured_advance:
  "configured s \<Longrightarrow> providers s \<noteq> [] \<Longrightarrow>
   configured (s\<lparr>current_index := (current_index s + 1) mod int (length (providers s))\<rparr>)"
  by (auto simp: configured_def list_all_iff)

lemma within_limits_advance [simp]:
  "within_limits (s\<lparr>current_index := i\<rparr>) = within_limits s"
  by (simp add: within_limits_def)

lemma scan_step:
  assumes "configured s" and "providers s \<noteq> []"
  shows "\<exists>c l. request_counts s (providers s ! nat (current_index s)) = Some c \<and>
           rate_limits s (providers s ! nat (current_index s)) = Some l \<and>
           scan (Suc n) s =
             (if below c l
              then Inr (providers s ! nat (current_index s),
                        s\<lparr>request_counts := (request_counts s)(providers s ! nat (current_index s) \<mapsto> c + 1)\<rparr>)
              else scan n (s\<lparr>current_index := (current_index s + 1) mod int (length (providers s))\<rparr>))"
proof -
  let ?p = "providers s ! nat (current_index s)"
  from configured_index[OF assms] have idx: "0 \<le> current_index s" "current_index s < int (length (providers s))"
    by simp_all
  then have it: "item (providers s) (current_index s) = Inr ?p" by (rule item_in_range)
  from idx have "?p \<in> set (providers s)" by simp
  from configuredD[OF assms(1) this] obtain c l where
    cl: "request_counts s ?p = Some c" "rate_limits s ?p = Some l" by blast
  then show ?thesis using it by simp
qed

lemma scan_invariant:
  assumes "configured s" and "n \<le> length (providers s)"
  shows "\<exists>p s'. scan n s = Inr (p, s') \<and> configured s' \<and> providers s' = providers s \<and>
           rate_limits s' = rate_limits s \<and> reset_time s' = reset_time s \<and>
           (within_limits s \<longrightarrow> within_limits s')"
  using assms
proof (induction n arbitrary: s)
  case 0
  then show ?case by simp
next
  case (Suc n)
  then have ne: "providers s \<noteq> []" by auto
  let ?p = "providers s ! nat (current_index s)"
  from scan_step[OF Suc.prems(1) ne, of n] obtain c l where
    cl: "request_counts s ?p = Some c" "rate_limits s ?p = Some l"
    and sc: "scan (Suc n) s =
             (if below c l
              then Inr (?p, s\<lparr>request_counts := (request_counts s)(?p \<mapsto> c + 1)\<rparr>)
              else scan n (s\<lparr>current_index := (current_index s + 1) mod int (length (providers s))\<rparr>))"
    by blast
  show ?case
  proof (cases "below c l")
    case True
    let ?s' = "s\<lparr>request_counts := (request_counts s)(?p \<mapsto> c + 1)\<rparr>"
    have "scan (Suc n) s = Inr (?p, ?s')" using sc True by simp
    moreover have "configured ?s'" using Suc.prems(1) by (rule configured_bump)
    moreover have "within_limits s \<longrightarrow> within_limits ?s'"
      using within_limits_bump[OF _ cl(2) below_at_most[OF True]] by blast
    ultimately show ?thesis by simp
  next
    case False
    let ?s1 = "s\<lparr>current_index := (current_index s + 1) mod int (length (providers s))\<rparr>"
    have c1: "configured ?s1" using Suc.prems(1) ne by (rule configured_advance)
    have "n \<le> length (providers ?s1)" using Suc.prems(2) by simp
    from Suc.IH[OF c1 this] obtain p s' where
      "scan n ?s1 = Inr (p, s')" "configured s'" "providers s' = providers ?s1"
      "rate_limits s' = rate_limits ?s1" "reset_time s' = reset_time ?s1"
      "within_limits ?s1 \<longrightarrow> within_limits s'" by blast
    then show ?thesis using sc False by simp
  qed
qed

lemma get_provider_invariant:
  assumes "configured s"
  shows "\<exists>p s'. get_provider now1 now2 s = Inr (p, s') \<and> configured s' \<and>
           (limits_nonneg s \<longrightarrow> within_limits s \<longrightarrow> limits_nonneg s' \<and> within_limits s')"
proof -
  let ?s0 = "reset_if_needed now1 now2 s"
  have c0: "configured ?s0" using assms by (rule configured_reset)
  from scan_invariant[OF c0 order_refl] obtain p s' where
    r: "scan (length (providers ?s0)) ?s0 = Inr (p, s')" "configured s'"
      "providers s' = providers ?s0" "rate_limits s' = rate_limits ?s0"
      "within_limits ?s0 \<longrightarrow> within_limits s'" by blast
  have "limits_nonneg s \<longrightarrow> within_limits s \<longrightarrow> limits_nonneg s' \<and> within_limits s'"
  proof (intro impI)
    assume ln: "limits_nonneg s" and wl: "within_limits s"
    have "limits_nonneg s'" using ln r(3,4) by (simp add: limits_nonneg_def)
    moreover have "within_limits s'" using within_limits_reset[OF ln wl] r(5) by blast
    ultimately show "limits_nonneg s' \<and> within_limits s'" by simp
  qed
  then show ?thesis using r(1,2) by (simp add: get_provider_def Let_def)
qed

lemma run_get_provider_invariant:
  assumes "configured s" and "limits_nonneg s" and "within_limits s"
  shows "\<exists>ps s'. run_get_provider clock s = Inr (ps, s') \<and> configured s' \<and>
           limits_nonneg s' \<and> within_limits s'"
  using assms
proof (induction clock arbitrary: s)
  case Nil
  then show ?case by simp
next
  case (Cons t clock)
  obtain now1 now2 where t: "t = (now1, now2)" by (cases t)
  from get_provider_invariant[OF Cons.prems(1), of now1 now2] Cons.prems(2,3) obtain p s1 where
    s1: "get_provider now1 now2 s = Inr (p, s1)" "configured s1" "limits_nonneg s1" "within_limits s1"
    by blast
  from Cons.IH[OF s1(2,3,4)] obtain ps s' where
    "run_get_provider clock s1 = Inr (ps, s')" "configured s'" "limits_nonneg s'" "within_limits s'"
    by blast
  then show ?case using s1(1) t by simp
qed

lemma query_grok_failed:
  "GROK_API_KEY net = [] \<or> failed (grok_post net prompt) \<Longrightarrow>
   query_grok net prompt = query_local prompt"
  by (auto simp: query_grok_def failed_def split: outcome.splits option.splits)

lemma query_gemini_failed:
  "GEMINI_API_KEY net = [] \<or> failed (gemini_post net prompt) \<Longrightarrow>
   GROK_API_KEY net = [] \<or> failed (grok_post net prompt) \<Longrightarrow>
   query_gemini net prompt = query_local prompt"
  by (auto simp: query_gemini_def failed_def query_grok_failed split: outcome.splits option.splits)

lemma configured_init: "configured (AIProviderRotation_init now)"
  by (simp add: configured_def AIProviderRotation_init_def)

lemma available_advance [simp]: "available (s\<lparr>current_index := i\<rparr>) p = available s p"
  by (simp add: available_def)

lemma scan_selects:
  assumes "configured s" and "providers s \<noteq> []" and "j < n"
    and "\<forall>k<j. \<not> available s (providers s ! nat ((current_index s + int k) mod int (length (providers s))))"
    and "available s (providers s ! nat ((current_index s + int j) mod int (length (providers s))))"
  shows "\<exists>s'. scan n s = Inr (providers s ! nat ((current_index s + int j) mod int (length (providers s))), s') \<and>
           current_index s' = (current_index s + int j) mod int (length (providers s))"
  using assms
proof (induction j arbitrary: s n)
  case 0
  then obtain m where n: "n = Suc m" by (cases n) auto
  from configured_index[OF "0.prems"(1,2)] have idx: "(current_index s + int 0) mod int (length (providers s)) = current_index s"
    by simp
  from scan_step[OF "0.prems"(1,2), of m] obtain c l where
    cl: "request_counts s (providers s ! nat (current_index s)) = Some c"
        "rate_limits s (providers s ! nat (current_index s)) = Some l"
    and sc: "scan (Suc m) s =
             (if below c l
              then Inr (providers s ! nat (current_index s),
                        s\<lparr>request_counts := (request_counts s)(providers s ! nat (current_index s) \<mapsto> c + 1)\<rparr>)
              else scan m (s\<lparr>current_index := (current_index s + 1) mod int (length (providers s))\<rparr>))"
    by blast
  from "0.prems"(5) idx cl have "below c l" by (simp add: available_def)
  with sc n idx show ?case by simp
next
  case (Suc j)
  then obtain m where n: "n = Suc m" and jm: "j < m" by (cases n) auto
  let ?len = "int (length (providers s))"
  let ?s1 = "s\<lparr>current_index := (current_index s + 1) mod ?len\<rparr>"
  from configured_index[OF Suc.prems(1,2)] have idx: "(current_index s + int 0) mod ?len = current_index s"
    by simp
  from scan_step[OF Suc.prems(1,2), of m] obtain c l where
    cl: "request_counts s (providers s ! nat (current_index s)) = Some c"
        "rate_limits s (providers s ! nat (current_index s)) = Some l"
    and sc: "scan (Suc m) s =
             (if below c l
              then Inr (providers s ! nat (current_index s),
                        s\<lparr>request_counts := (request_counts s)(providers s ! nat (current_index s) \<mapsto> c + 1)\<rparr>)
              else scan m ?s1)"
    by blast
  from Suc.prems(4) have "\<not> available s (providers s ! nat ((current_index s + int 0) mod ?len))"
    by blast
  with idx cl have nb: "\<not> below c l" by (simp add: available_def)
  have shift: "(current_index ?s1 + int k) mod int (length (providers ?s1))
             = (current_index s + int (Suc k)) mod ?len" for k
  proof -
    have "((current_index s + 1) mod ?len + int k) mod ?len = (current_index s + 1 + int k) mod ?len"
      by (rule mod_add_left_eq)
    then show ?thesis by (simp add: add.assoc)
  qed
  have c1: "configured ?s1" using Suc.prems(1,2) by (rule configured_advance)
  have ne1: "providers ?s1 \<noteq> []" using Suc.prems(2) by simp
  have ex1: "\<forall>k<j. \<not> available ?s1 (providers ?s1 ! nat ((current_index ?s1 + int k) mod int (length (providers ?s1))))"
  proof (intro allI impI)
    fix k assume "k < j"
    then have "Suc k < Suc j" by simp
    with Suc.prems(4) have "\<not> available s (providers s ! nat ((current_index s + int (Suc k)) mod ?len))"
      by blast
    then show "\<not> available ?s1 (providers ?s1 ! nat ((current_index ?s1 + int k) mod int (length (providers ?s1))))"
      by (simp only: shift) simp
  qed
  have av1: "available ?s1 (providers ?s1 ! nat ((current_index ?s1 + int j) mod int (length (providers ?s1))))"
    using Suc.prems(5) by (simp only: shift) simp
  from Suc.IH[OF c1 ne1 jm ex1 av1] obtain s' where
    "scan m ?s1 = Inr (providers ?s1 ! nat ((current_index ?s1 + int j) mod int (length (providers ?s1))), s')"
    "current_index s' = (current_index ?s1 + int j) mod int (length (providers ?s1))" by blast
  then have "scan m ?s1 = Inr (providers s ! nat ((current_index s + int (Suc j)) mod ?len), s')"
    "current_index s' = (current_index s + int (Suc j)) mod ?len"
    by (simp_all only: shift) simp_all
  with sc nb n show ?case by simp
qed

text \<open>From the rotation as constructed, 160 calls within one window use up gemini (60
  calls) and then grok (100 calls); the next call returns \<^verbatim>\<open>"local"\<close>, with the cursor on
  position 2 and the three counters at 60, 100 and 1.\<close>

lemma remotes_exhausted_after_160_calls:
  "map_sum id (\<lambda>r. (fst r, current_index (snd r), request_counts (snd r) ''gemini'',
       request_counts (snd r) ''grok'', request_counts (snd r) ''local''))
     (run_get_provider (replicate 161 (0, 0)) (AIProviderRotation_init 0))
   = Inr (replicate 60 ''gemini'' @ replicate 100 ''grok'' @ [''local''], 2, Some 60, Some 100, Some 1)"
  by code_simp

subsection \<open>Claims about AIProviderRotation\<close>

text \<open>
  C2. From a rotation in which every listed provider has a counter and a limit, no limit is
  negative and no counter is above its limit (as after \<^verbatim>\<open>__init__\<close>), every sequence of
  \<^verbatim>\<open>get_provider\<close> calls returns normally and leaves every listed provider's counter at
  or below its limit; an unbounded limit is never exceeded. The sequence is arbitrary, so
  this holds after each of its calls. With a limit of 1 the counter stays at most 1.
\<close>

theorem counters_within_limits:
  assumes "configured s" and "limits_nonneg s" and "within_limits s"
  shows "\<exists>ps s'. run_get_provider clock s = Inr (ps, s') \<and> within_limits s'"
  using run_get_provider_invariant[OF assms, of clock] by blast

theorem counters_within_limits_witness:
  "configured \<lparr>providers = [''p1''], current_index = 0, request_counts = [''p1'' \<mapsto> 0],
               rate_limits = [''p1'' \<mapsto> Finite 1], reset_time = 0\<rparr>
   \<and> limits_nonneg \<lparr>providers = [''p1''], current_index = 0, request_counts = [''p1'' \<mapsto> 0],
               rate_limits = [''p1'' \<mapsto> Finite 1], reset_time = 0\<rparr>
   \<and> within_limits \<lparr>providers = [''p1''], current_index = 0, request_counts = [''p1'' \<mapsto> 0],
               rate_limits = [''p1'' \<mapsto> Finite 1], reset_time = 0\<rparr>
   \<and> run_get_provider [(0, 0), (1, 1)]
        \<lparr>providers = [''p1''], current_index = 0, request_counts = [''p1'' \<mapsto> 0],
         rate_limits = [''p1'' \<mapsto> Finite 1], reset_time = 0\<rparr>
      = Inr ([''p1'', ''local''],
             \<lparr>providers = [''p1''], current_index = 0, request_counts = [''p1'' \<mapsto> 1],
              rate_limits = [''p1'' \<mapsto> Finite 1], reset_time = 0\<rparr>)
   \<and> within_limits \<lparr>providers = [''p1''], current_index = 0, request_counts = [''p1'' \<mapsto> 1],
              rate_limits = [''p1'' \<mapsto> Finite 1], reset_time = 0\<rparr>"
proof -
  let ?S = "\<lparr>providers = [''p1''], current_index = 0, request_counts = [''p1'' \<mapsto> 0::int],
               rate_limits = [''p1'' \<mapsto> Finite 1], reset_time = 0::int\<rparr>"
  let ?S' = "\<lparr>providers = [''p1''], current_index = 0, request_counts = [''p1'' \<mapsto> 1::int],
               rate_limits = [''p1'' \<mapsto> Finite 1], reset_time = 0::int\<rparr>"
  have c: "configured ?S" by (simp add: configured_def)
  have n: "limits_nonneg ?S" by (simp add: limits_nonneg_def)
  have w: "within_limits ?S" by (simp add: within_limits_def)
  have run: "run_get_provider [(0, 0), (1, 1)] ?S = Inr ([''p1'', ''local''], ?S')"
    by (simp add: get_provider_def reset_if_needed_def minute_def item_def Let_def)
  from counters_within_limits[OF c n w, of "[(0, 0), (1, 1)]"] run
  have w': "within_limits ?S'" by simp
  show ?thesis by (intro conjI c n w run w')
qed

text \<open>
  C3, as the code moves the cursor. When the scan of \<^verbatim>\<open>get_provider\<close> finds its first available provider
  \<open>j\<close> steps after the cursor, at position \<open>i = (current_index + j) mod len(providers)\<close>, the
  call returns that provider and leaves \<^verbatim>\<open>current_index\<close> at \<open>i\<close> itself: the cursor moves
  past exhausted providers only, and the next call starts its scan at the provider just
  returned.
\<close>

theorem index_rests_on_selected:
  assumes "configured s" and "j < length (providers s)"
    and "\<forall>k<j. \<not> available (reset_if_needed now1 now2 s)
                  (providers s ! nat ((current_index s + int k) mod int (length (providers s))))"
    and "available (reset_if_needed now1 now2 s)
           (providers s ! nat ((current_index s + int j) mod int (length (providers s))))"
  shows "\<exists>s'. get_provider now1 now2 s
                = Inr (providers s ! nat ((current_index s + int j) mod int (length (providers s))), s') \<and>
              current_index s' = (current_index s + int j) mod int (length (providers s))"
proof -
  let ?s0 = "reset_if_needed now1 now2 s"
  have c0: "configured ?s0" using assms(1) by (rule configured_reset)
  have ne: "providers ?s0 \<noteq> []" using assms(2) by auto
  have j0: "j < length (providers ?s0)" using assms(2) by simp
  have ex: "\<forall>k<j. \<not> available ?s0 (providers ?s0 ! nat ((current_index ?s0 + int k) mod int (length (providers ?s0))))"
    using assms(3) by simp
  have av: "available ?s0 (providers ?s0 ! nat ((current_index ?s0 + int j) mod int (length (providers ?s0))))"
    using assms(4) by simp
  from scan_selects[OF c0 ne j0 ex av] show ?thesis
    by (simp add: get_provider_def Let_def)
qed

theorem index_rests_on_selected_witness:
  "configured ((AIProviderRotation_init 0)\<lparr>request_counts :=
        [''gemini'' \<mapsto> 60, ''grok'' \<mapsto> 0, ''local'' \<mapsto> 0]\<rparr>)
   \<and> \<not> available ((AIProviderRotation_init 0)\<lparr>request_counts :=
        [''gemini'' \<mapsto> 60, ''grok'' \<mapsto> 0, ''local'' \<mapsto> 0]\<rparr>) ''gemini''
   \<and> available ((AIProviderRotation_init 0)\<lparr>request_counts :=
        [''gemini'' \<mapsto> 60, ''grok'' \<mapsto> 0, ''local'' \<mapsto> 0]\<rparr>) ''grok''
   \<and> (\<exists>s'. get_provider 5 5 ((AIProviderRotation_init 0)\<lparr>request_counts :=
        [''gemini'' \<mapsto> 60, ''grok'' \<mapsto> 0, ''local'' \<mapsto> 0]\<rparr>) = Inr (''grok'', s') \<and>
        current_index s' = 1)"
proof -
  let ?S = "(AIProviderRotation_init 0)\<lparr>request_counts :=
        [''gemini'' \<mapsto> 60, ''grok'' \<mapsto> 0, ''local'' \<mapsto> 0]\<rparr>"
  have c: "configured ?S" by (simp add: configured_def AIProviderRotation_init_def)
  have r: "reset_if_needed 5 5 ?S = ?S"
    by (simp add: reset_if_needed_def minute_def AIProviderRotation_init_def)
  have g: "\<not> available ?S ''gemini''" by (simp add: available_def AIProviderRotation_init_def)
  have k: "available ?S ''grok''" by (simp add: available_def AIProviderRotation_init_def)
  have j: "(1::nat) < length (providers ?S)" by (simp add: AIProviderRotation_init_def)
  have p0: "providers ?S ! nat ((current_index ?S + int 0) mod int (length (providers ?S))) = ''gemini''"
    by (simp add: AIProviderRotation_init_def)
  have p1: "providers ?S ! nat ((current_index ?S + int 1) mod int (length (providers ?S))) = ''grok''"
    by (simp add: AIProviderRotation_init_def)
  have p1': "providers ?S ! nat 1 = ''grok''"
    by (simp add: AIProviderRotation_init_def)
  have i1: "(current_index ?S + int 1) mod int (length (providers ?S)) = 1"
    by (simp add: AIProviderRotation_init_def)
  have ex: "\<forall>k<1. \<not> available (reset_if_needed 5 5 ?S)
                  (providers ?S ! nat ((current_index ?S + int k) mod int (length (providers ?S))))"
    using g p0 by (simp add: r)
  have av: "available (reset_if_needed 5 5 ?S)
           (providers ?S ! nat ((current_index ?S + int 1) mod int (length (providers ?S))))"
    using k by (simp only: r p1)
  from index_rests_on_selected[OF c j ex av]
  have "\<exists>s'. get_provider 5 5 ?S = Inr (''grok'', s') \<and> current_index s' = 1"
    by (simp only: i1 p1')
  with c g k show ?thesis by blast
qed

text \<open>
  C3 as stated fails: on a fresh rotation the call returns \<^verbatim>\<open>"gemini"\<close>, found at position
  0, and \<^verbatim>\<open>current_index\<close> is still 0, not 1 (\<^verbatim>\<open>return provider\<close> precedes the only
  assignment to the cursor).
\<close>

theorem index_not_advanced_counterexample:
  "get_provider 0 0 (AIProviderRotation_init 0)
     = Inr (''gemini'', (AIProviderRotation_init 0)\<lparr>request_counts :=
              (request_counts (AIProviderRotation_init 0))(''gemini'' \<mapsto> 1)\<rparr>)
   \<and> item (providers (AIProviderRotation_init 0)) 0 = Inr ''gemini''
   \<and> current_index ((AIProviderRotation_init 0)\<lparr>request_counts :=
              (request_counts (AIProviderRotation_init 0))(''gemini'' \<mapsto> 1)\<rparr>) = 0
   \<and> (0 + 1) mod int (length (providers (AIProviderRotation_init 0))) = 1"
  by (simp add: get_provider_def reset_if_needed_def minute_def item_def Let_def
        AIProviderRotation_init_def)

text \<open>
  C4, with \<^verbatim>\<open>"local"\<close> as a listed provider. In the rotation as constructed (\<^verbatim>\<open>"local"\<close> is the last listed provider,
  with an unbounded limit), when gemini and grok are both exhausted and the window is not
  stale, \<^verbatim>\<open>get_provider\<close> returns \<^verbatim>\<open>"local"\<close>, leaves the counters of gemini and grok
  unchanged, increments the counter of \<^verbatim>\<open>"local"\<close> by one and leaves the cursor on
  position 2.
\<close>

theorem exhausted_remotes_select_local:
  assumes "providers s = [''gemini'', ''grok'', ''local'']"
    and "rate_limits s = [''gemini'' \<mapsto> Finite 60, ''grok'' \<mapsto> Finite 100, ''local'' \<mapsto> Unbounded]"
    and "request_counts s ''gemini'' = Some g" and "60 \<le> g"
    and "request_counts s ''grok'' = Some k" and "100 \<le> k"
    and "request_counts s ''local'' = Some c"
    and "current_index s = 0 \<or> current_index s = 1 \<or> current_index s = 2"
    and "now1 - reset_time s \<le> minute"
  shows "\<exists>s'. get_provider now1 now2 s = Inr (''local'', s') \<and>
           request_counts s' = (request_counts s)(''local'' \<mapsto> c + 1) \<and>
           current_index s' = 2 \<and> providers s' = providers s \<and>
           rate_limits s' = rate_limits s \<and> reset_time s' = reset_time s"
proof -
  have r: "reset_if_needed now1 now2 s = s" using assms(9) by (simp add: reset_if_needed_def)
  from assms(8) consider "current_index s = 0" | "current_index s = 1" | "current_index s = 2"
    by blast
  then show ?thesis
  proof cases
    case 1
    with assms(1-7) show ?thesis by (simp add: get_provider_def r item_def Let_def)
  next
    case 2
    with assms(1-7) show ?thesis by (simp add: get_provider_def r item_def Let_def)
  next
    case 3
    with assms(1-7) show ?thesis by (simp add: get_provider_def r item_def Let_def)
  qed
qed

theorem exhausted_remotes_select_local_witness:
  "providers ((AIProviderRotation_init 0)\<lparr>request_counts :=
        [''gemini'' \<mapsto> 60, ''grok'' \<mapsto> 100, ''local'' \<mapsto> 0]\<rparr>) = [''gemini'', ''grok'', ''local'']
   \<and> (0::int) - reset_time ((AIProviderRotation_init 0)\<lparr>request_counts :=
        [''gemini'' \<mapsto> 60, ''grok'' \<mapsto> 100, ''local'' \<mapsto> 0]\<rparr>) \<le> minute
   \<and> (\<exists>s'. get_provider 0 0 ((AIProviderRotation_init 0)\<lparr>request_counts :=
        [''gemini'' \<mapsto> 60, ''grok'' \<mapsto> 100, ''local'' \<mapsto> 0]\<rparr>) = Inr (''local'', s') \<and>
         request_counts s' = [''gemini'' \<mapsto> 60, ''grok'' \<mapsto> 100, ''local'' \<mapsto> 1] \<and>
         current_index s' = 2)"
proof -
  let ?S = "(AIProviderRotation_init 0)\<lparr>request_counts :=
        [''gemini'' \<mapsto> 60, ''grok'' \<mapsto> 100, ''local'' \<mapsto> 0]\<rparr>"
  have p: "providers ?S = [''gemini'', ''grok'', ''local'']"
    by (simp add: AIProviderRotation_init_def)
  have l: "rate_limits ?S = [''gemini'' \<mapsto> Finite 60, ''grok'' \<mapsto> Finite 100, ''local'' \<mapsto> Unbounded]"
    by (simp add: AIProviderRotation_init_def)
  have g: "request_counts ?S ''gemini'' = Some 60" by simp
  have k: "request_counts ?S ''grok'' = Some 100" by simp
  have c: "request_counts ?S ''local'' = Some 0" by simp
  have i: "current_index ?S = 0 \<or> current_index ?S = 1 \<or> current_index ?S = 2"
    by (simp add: AIProviderRotation_init_def)
  have t: "(0::int) - reset_time ?S \<le> minute"
    by (simp add: AIProviderRotation_init_def minute_def)
  from exhausted_remotes_select_local[OF p l g order_refl k order_refl c i t, of 0]
  obtain s' where s': "get_provider 0 0 ?S = Inr (''local'', s')"
    "request_counts s' = (request_counts ?S)(''local'' \<mapsto> 0 + 1)" "current_index s' = 2"
    by blast
  from s'(2) have "request_counts s' = [''gemini'' \<mapsto> 60, ''grok'' \<mapsto> 100, ''local'' \<mapsto> 1]"
    by simp
  with s'(1,3) p t show ?thesis by blast
qed

text \<open>
  C4 as stated fails: with gemini at 60 and grok at 100 requests (the state after 160 calls
  within one minute) the call returns \<^verbatim>\<open>"local"\<close> from inside the loop and
  \<^verbatim>\<open>request_counts["local"]\<close> goes from 0 to 1.
\<close>

theorem local_counter_incremented_counterexample:
  "get_provider 0 0 ((AIProviderRotation_init 0)\<lparr>request_counts :=
        [''gemini'' \<mapsto> 60, ''grok'' \<mapsto> 100, ''local'' \<mapsto> 0]\<rparr>)
     = Inr (''local'', (AIProviderRotation_init 0)\<lparr>current_index := 2, request_counts :=
        [''gemini'' \<mapsto> 60, ''grok'' \<mapsto> 100, ''local'' \<mapsto> 1]\<rparr>)
   \<and> request_counts ((AIProviderRotation_init 0)\<lparr>request_counts :=
        [''gemini'' \<mapsto> 60, ''grok'' \<mapsto> 100, ''local'' \<mapsto> 0]\<rparr>) ''local'' = Some 0
   \<and> request_counts ((AIProviderRotation_init 0)\<lparr>current_index := 2, request_counts :=
        [''gemini'' \<mapsto> 60, ''grok'' \<mapsto> 100, ''local'' \<mapsto> 1]\<rparr>) ''local'' = Some 1"
  by (simp add: get_provider_def reset_if_needed_def minute_def item_def Let_def
        AIProviderRotation_init_def)

text \<open>
  C6. In a rotation where every listed provider has a counter and a limit (as after
  \<^verbatim>\<open>__init__\<close>), \<^verbatim>\<open>query\<close> returns a response string for every prompt, every pair of API
  keys and every outcome of the two remote requests; no exception reaches the caller. When
  each remote provider has no key or its request fails, the response is the local one.
\<close>

theorem query_always_answers:
  assumes "configured s"
  shows "\<exists>r s'. query net prompt now1 now2 s = Inr (r, s') \<and>
           ((GEMINI_API_KEY net = [] \<or> failed (gemini_post net prompt)) \<and>
            (GROK_API_KEY net = [] \<or> failed (grok_post net prompt)) \<longrightarrow>
              r = query_local prompt)"
proof -
  from get_provider_invariant[OF assms, of now1 now2] obtain p s' where
    g: "get_provider now1 now2 s = Inr (p, s')" by blast
  let ?r = "if p = ''gemini'' then query_gemini net prompt
            else if p = ''grok'' then query_grok net prompt else query_local prompt"
  have q: "query net prompt now1 now2 s = Inr (?r, s')" using g by (simp add: query_def)
  have "(GEMINI_API_KEY net = [] \<or> failed (gemini_post net prompt)) \<and>
        (GROK_API_KEY net = [] \<or> failed (grok_post net prompt)) \<longrightarrow> ?r = query_local prompt"
    by (simp add: query_gemini_failed query_grok_failed)
  with q show ?thesis by blast
qed

theorem query_always_answers_witness:
  "configured (AIProviderRotation_init 0)
   \<and> query \<lparr>GEMINI_API_KEY = ''k1'', GROK_API_KEY = ''k2'',
             gemini_post = (\<lambda>prompt. Failed), grok_post = (\<lambda>prompt. Status 500 None)\<rparr>
        ''q'' 0 0 (AIProviderRotation_init 0)
      = Inr (''[Local Analysis] Further research needed for: q...'',
             (AIProviderRotation_init 0)\<lparr>request_counts :=
                (request_counts (AIProviderRotation_init 0))(''gemini'' \<mapsto> 1)\<rparr>)"
proof -
  let ?net = "\<lparr>GEMINI_API_KEY = ''k1'', GROK_API_KEY = ''k2'',
             gemini_post = (\<lambda>prompt. Failed), grok_post = (\<lambda>prompt. Status 500 None)\<rparr>"
  have c: "configured (AIProviderRotation_init 0)" by (rule configured_init)
  from query_always_answers[OF c, of ?net "''q''" 0 0] obtain r s' where
    q: "query ?net ''q'' 0 0 (AIProviderRotation_init 0) = Inr (r, s')"
    and r: "r = query_local ''q''" by (auto simp: failed_def)
  have g: "get_provider 0 0 (AIProviderRotation_init 0)
      = Inr (''gemini'', (AIProviderRotation_init 0)\<lparr>request_counts :=
                (request_counts (AIProviderRotation_init 0))(''gemini'' \<mapsto> 1)\<rparr>)"
    by (simp add: get_provider_def reset_if_needed_def minute_def item_def Let_def
        AIProviderRotation_init_def)
  have "s' = (AIProviderRotation_init 0)\<lparr>request_counts :=
                (request_counts (AIProviderRotation_init 0))(''gemini'' \<mapsto> 1)\<rparr>"
    using q g by (simp add: query_def)
  moreover have "query_local ''q'' = ''[Local Analysis] Further research needed for: q...''"
    by (simp add: query_local_def)
  ultimately show ?thesis using c q r by simp
qed

text \<open>
  C8, with the clock reading as the new window start. When the window is stale at a call (more than 60 seconds since
  \<^verbatim>\<open>reset_time\<close>), the rollover sets every listed provider's counter to 0 and sets
  \<^verbatim>\<open>reset_time\<close> to the clock reading taken at the reset, which (the clock not running
  backwards) lies more than one window after the previous \<^verbatim>\<open>reset_time\<close>; every listed
  provider with a positive limit is available afterwards, with no manual reset.
\<close>

theorem rollover_resets:
  assumes stale: "now1 - reset_time s > minute" and clock: "now1 \<le> now2"
  shows "reset_time (reset_if_needed now1 now2 s) = now2 \<and>
         reset_time s + minute < now2 \<and>
         (\<forall>p \<in> set (providers s). request_counts (reset_if_needed now1 now2 s) p = Some 0) \<and>
         (\<forall>p \<in> set (providers s). \<forall>l. rate_limits s p = Some l \<and> below 0 l \<longrightarrow>
            available (reset_if_needed now1 now2 s) p)"
proof -
  have r: "reset_if_needed now1 now2 s =
        s\<lparr>request_counts := map_of (map (\<lambda>p. (p, 0)) (providers s)), reset_time := now2\<rparr>"
    using stale by (simp add: reset_if_needed_def)
  have a: "reset_time (reset_if_needed now1 now2 s) = now2" by (simp add: r)
  have b: "reset_time s + minute < now2" using stale clock by simp
  have c: "\<forall>p \<in> set (providers s). request_counts (reset_if_needed now1 now2 s) p = Some 0"
    by (simp add: r map_of_zero)
  have d: "\<forall>p \<in> set (providers s). \<forall>l. rate_limits s p = Some l \<and> below 0 l \<longrightarrow>
            available (reset_if_needed now1 now2 s) p"
    by (simp add: r map_of_zero available_def)
  show ?thesis by (intro conjI a b c d)
qed

theorem rollover_resets_witness:
  "(91000000::int) - reset_time ((AIProviderRotation_init 0)\<lparr>request_counts :=
        [''gemini'' \<mapsto> 60, ''grok'' \<mapsto> 100, ''local'' \<mapsto> 7]\<rparr>) > minute
   \<and> (91000000::int) \<le> 91000005
   \<and> reset_time (reset_if_needed 91000000 91000005 ((AIProviderRotation_init 0)\<lparr>request_counts :=
        [''gemini'' \<mapsto> 60, ''grok'' \<mapsto> 100, ''local'' \<mapsto> 7]\<rparr>)) = 91000005
   \<and> request_counts (reset_if_needed 91000000 91000005 ((AIProviderRotation_init 0)\<lparr>request_counts :=
        [''gemini'' \<mapsto> 60, ''grok'' \<mapsto> 100, ''local'' \<mapsto> 7]\<rparr>)) ''gemini'' = Some 0
   \<and> available (reset_if_needed 91000000 91000005 ((AIProviderRotation_init 0)\<lparr>request_counts :=
        [''gemini'' \<mapsto> 60, ''grok'' \<mapsto> 100, ''local'' \<mapsto> 7]\<rparr>)) ''gemini''
   \<and> \<not> available ((AIProviderRotation_init 0)\<lparr>request_counts :=
        [''gemini'' \<mapsto> 60, ''grok'' \<mapsto> 100, ''local'' \<mapsto> 7]\<rparr>) ''gemini''"
proof -
  let ?S = "(AIProviderRotation_init 0)\<lparr>request_counts :=
        [''gemini'' \<mapsto> 60, ''grok'' \<mapsto> 100, ''local'' \<mapsto> 7]\<rparr>"
  have stale: "(91000000::int) - reset_time ?S > minute"
    by (simp add: AIProviderRotation_init_def minute_def)
  have clock: "(91000000::int) \<le> 91000005" by simp
  note th = rollover_resets[OF stale clock]
  have mem: "''gemini'' \<in> set (providers ?S)" by (simp add: AIProviderRotation_init_def)
  have lim: "rate_limits ?S ''gemini'' = Some (Finite 60) \<and> below 0 (Finite 60)"
    by (simp add: AIProviderRotation_init_def)
  have a: "reset_time (reset_if_needed 91000000 91000005 ?S) = 91000005"
    using th by blast
  have c: "request_counts (reset_if_needed 91000000 91000005 ?S) ''gemini'' = Some 0"
    using th mem by blast
  have d: "available (reset_if_needed 91000000 91000005 ?S) ''gemini''"
    using th mem lim by blast
  have e: "\<not> available ?S ''gemini''"
    by (simp add: available_def AIProviderRotation_init_def)
  show ?thesis by (intro conjI stale clock a c d e)
qed

text \<open>
  C8 as stated fails: with \<^verbatim>\<open>reset_time\<close> 0 and the clock at 91 seconds the new
  \<^verbatim>\<open>reset_time\<close> is the clock reading, 91.000005 s, not 0 + 60 s.
\<close>

theorem rollover_not_one_window_counterexample:
  "reset_time (reset_if_needed 91000000 91000005 (AIProviderRotation_init 0)) = 91000005
   \<and> reset_time (AIProviderRotation_init 0) + minute = 60000000"
  by (simp add: reset_if_needed_def AIProviderRotation_init_def minute_def)

end
